theory Spec2Isabelle
  imports Complex_Main "HOL-Library.Word"
begin

section \<open>Tokens and the state of an ArithmeticParser\<close>

text \<open>
  Modelled from the spec: the enumeration \<open>token_t\<close> is declared in the header
  \<open>include/arithmetic_parser.h\<close>. \<open>getToken\<close> casts the position of a character in
  \<open>delims\<close> to \<open>token_t\<close>, so the first seven enumerators follow the order of \<open>delims\<close>
  (\<open>^ + - * / ( )\<close>); the remaining ones are the discriminants the spec lists.
\<close>

datatype token_t =
  T_POW | T_PLUS | T_MINUS | T_MUL | T_DIV | T_LPAREN | T_RPAREN
  | T_NEGATE | T_X | T_NUMBER | T_FUNC | T_END

text \<open>
  Modelled from the spec: the struct \<open>Token\<close> of the header, with the three fields the
  source reads (\<open>type\<close>, \<open>realValue\<close>, \<open>intValue\<close>) and the three constructors it
  calls (\<open>Token(tt)\<close>, \<open>Token(tt, double)\<close>, \<open>Token(tt, int)\<close>); a field a constructor
  is not given is taken as zero. A \<open>double\<close> is taken as a real number throughout:
  no rounding, no infinities, no NaN.
\<close>

record Token =
  type :: token_t
  realValue :: real
  intValue :: int

definition Token_of :: "token_t \<Rightarrow> Token" where
  "Token_of tt = \<lparr>type = tt, realValue = 0, intValue = 0\<rparr>"

definition Token_real :: "token_t \<Rightarrow> real \<Rightarrow> Token" where
  "Token_real tt v = \<lparr>type = tt, realValue = v, intValue = 0\<rparr>"

definition Token_int :: "token_t \<Rightarrow> int \<Rightarrow> Token" where
  "Token_int tt i = \<lparr>type = tt, realValue = 0, intValue = i\<rparr>"

text \<open>
  The members of the class. \<open>data\<close> is the cursor into the NUL-terminated input: the
  characters from the cursor on. \<open>buf\<close> holds the elements of the \<open>vector<char>\<close>;
  \<open>stale\<close> holds the bytes of its storage that lie after the last element.
  \<open>clear\<close> only resets the size and \<open>push_back\<close> writes one byte, so \<open>stale\<close> is
  what earlier contents left there, followed by what the allocation held. The source
  reads these bytes: \<open>buf.data()\<close> is passed to \<open>atof\<close> and to \<open>std::find\<close> as a C
  string. A reallocation of the storage (a token longer than the 80 reserved bytes) is
  not followed: the bytes after the elements stay what is left of \<open>stale\<close>, and the end
  of \<open>stale\<close> reads as the end of the string.
\<close>

record ArithmeticParser =
  data :: string
  token :: Token
  rpn :: "Token list"
  buf :: string
  stale :: string

text \<open>What the source throws: a \<open>Token\<close>, or a \<open>const char *\<close> (the C string it points to).\<close>

datatype thrown = Thrown_Token Token | Thrown_chars string

type_synonym 'a result = "(thrown \<times> ArithmeticParser) + 'a"

definition buf_clear :: "ArithmeticParser \<Rightarrow> ArithmeticParser" where
  "buf_clear st = st\<lparr>buf := [], stale := buf st @ stale st\<rparr>"

definition buf_push_back :: "char \<Rightarrow> ArithmeticParser \<Rightarrow> ArithmeticParser" where
  "buf_push_back c st = st\<lparr>buf := buf st @ [c], stale := tl (stale st)\<rparr>"

definition rpn_push_back :: "Token \<Rightarrow> ArithmeticParser \<Rightarrow> ArithmeticParser" where
  "rpn_push_back t st = st\<lparr>rpn := rpn st @ [t]\<rparr>"

text \<open>\<open>buf.data()\<close> read as a C string: the storage up to the first NUL.\<close>

definition c_str :: "string \<Rightarrow> string" where
  "c_str s = takeWhile (\<lambda>c. c \<noteq> CHR 0x00) s"

definition buf_data :: "ArithmeticParser \<Rightarrow> string" where
  "buf_data st = c_str (buf st @ stale st)"

section \<open>Character classes and the C library\<close>

text \<open>The classification functions of \<open><ctype.h>\<close> in the C locale.\<close>

definition isspace :: "char \<Rightarrow> bool" where
  "isspace c = (c = CHR '' '' \<or> (9 \<le> (of_char c :: nat) \<and> (of_char c :: nat) \<le> 13))"

definition isdigit :: "char \<Rightarrow> bool" where
  "isdigit c = (48 \<le> (of_char c :: nat) \<and> (of_char c :: nat) \<le> 57)"

definition isalpha :: "char \<Rightarrow> bool" where
  "isalpha c = ((65 \<le> (of_char c :: nat) \<and> (of_char c :: nat) \<le> 90)
     \<or> (97 \<le> (of_char c :: nat) \<and> (of_char c :: nat) \<le> 122))"

definition tolower :: "char \<Rightarrow> char" where
  "tolower c = (if 65 \<le> (of_char c :: nat) \<and> (of_char c :: nat) \<le> 90
     then char_of ((of_char c :: nat) + 32) else c)"

text \<open>
  \<open>atof\<close> of the C library on a decimal floating constant: optional white space and
  sign, digits with an optional point, an optional exponent; the longest such prefix is
  converted and the rest of the string is ignored. The hexadecimal, \<open>inf\<close> and \<open>nan\<close>
  forms are left out (the source only passes strings that start with \<open>0.\<close>), and the
  result is the real number denoted, not its nearest \<open>double\<close>.
\<close>

definition digit_val :: "char \<Rightarrow> nat" where
  "digit_val c = (of_char c :: nat) - 48"

definition decimal :: "string \<Rightarrow> nat" where
  "decimal ds = foldl (\<lambda>a c. a * 10 + digit_val c) 0 ds"

definition pow10 :: "int \<Rightarrow> real" where
  "pow10 e = (if 0 \<le> e then 10 ^ nat e else 1 / 10 ^ nat (- e))"

definition atof_exponent :: "string \<Rightarrow> int" where
  "atof_exponent s =
     (case s of
        [] \<Rightarrow> 0
      | c # r \<Rightarrow>
          if c = CHR ''e'' \<or> c = CHR ''E'' then
            (case r of
               [] \<Rightarrow> 0
             | d # r' \<Rightarrow>
                 if d = CHR ''-'' then - int (decimal (takeWhile isdigit r'))
                 else if d = CHR ''+'' then int (decimal (takeWhile isdigit r'))
                 else int (decimal (takeWhile isdigit r)))
          else 0)"

definition atof_unsigned :: "string \<Rightarrow> real" where
  "atof_unsigned s =
     (let ip = takeWhile isdigit s;
          r = dropWhile isdigit s;
          fp = (case r of [] \<Rightarrow> [] | c # r' \<Rightarrow> if c = CHR ''.'' then takeWhile isdigit r' else []);
          r2 = (case r of [] \<Rightarrow> [] | c # r' \<Rightarrow> if c = CHR ''.'' then dropWhile isdigit r' else r)
      in if ip = [] \<and> fp = [] then 0
         else (real (decimal ip) + real (decimal fp) / 10 ^ length fp) * pow10 (atof_exponent r2))"

definition atof :: "string \<Rightarrow> real" where
  "atof s =
     (case dropWhile isspace s of
        [] \<Rightarrow> 0
      | c # r \<Rightarrow>
          if c = CHR ''-'' then - atof_unsigned r
          else if c = CHR ''+'' then atof_unsigned r
          else atof_unsigned (c # r))"

section \<open>The lexer\<close>

definition delims :: "char list" where
  "delims = [CHR ''^'', CHR ''+'', CHR ''-'', CHR ''*'', CHR ''/'', CHR ''('', CHR '')'']"

definition funcnames :: "string list" where
  "funcnames = [''cos'', ''sin'', ''tg'', ''ctg'', ''arcsin'', ''arccos'', ''arctg'',
     ''ln'', ''lg'', ''abs'']"

text \<open>\<open>(token_t)index\<close> for an index into \<open>delims\<close>.\<close>

definition token_t_of_index :: "nat \<Rightarrow> token_t" where
  "token_t_of_index i =
     [T_POW, T_PLUS, T_MINUS, T_MUL, T_DIV, T_LPAREN, T_RPAREN,
      T_NEGATE, T_X, T_NUMBER, T_FUNC, T_END] ! i"

text \<open>\<open>std::find\<close> followed by \<open>std::distance\<close>: the first position of an element.\<close>

fun find_index :: "'a \<Rightarrow> 'a list \<Rightarrow> nat option" where
  "find_index x [] = None"
| "find_index x (y # ys) =
     (if y = x then Some 0 else map_option Suc (find_index x ys))"

text \<open>\<open>*data\<close>: the character at the cursor, NUL at the end of the input.\<close>

definition deref :: "string \<Rightarrow> char" where
  "deref d = (case d of [] \<Rightarrow> CHR 0x00 | c # _ \<Rightarrow> c)"

definition advance :: "ArithmeticParser \<Rightarrow> ArithmeticParser" where
  "advance st = st\<lparr>data := tl (data st)\<rparr>"

text \<open>
  State \<open>TS_NUMBER\<close>, the loop \<open>while (isdigit(c)) { n = n * 10 + c - '0'; c = *++data; }\<close>.
  \<open>n\<close> is an \<open>int\<close>: a 32-bit word, read as two's complement. Signed overflow is
  undefined in C++; the model wraps around, as the usual compilers do.
\<close>

function number_loop :: "32 word \<Rightarrow> ArithmeticParser \<Rightarrow> 32 word \<times> ArithmeticParser" where
  "number_loop n st =
     (let c = deref (data st) in
      if isdigit c
      then number_loop (n * 10 + word_of_nat (of_char c) - 48) (advance st)
      else (n, st))"
  by pat_completeness auto

text \<open>The loop \<open>do { buf.push_back(c); c = *++data; } while (isdigit(c));\<close>.\<close>

function fraction_loop :: "ArithmeticParser \<Rightarrow> ArithmeticParser" where
  "fraction_loop st =
     (let st1 = advance (buf_push_back (deref (data st)) st) in
      if isdigit (deref (data st1)) then fraction_loop st1 else st1)"
  by pat_completeness auto

text \<open>State \<open>TS_FUNCNAME\<close>, the loop \<open>while (isalpha(c)) { buf.push_back(c); c = *++data; }\<close>.\<close>

function funcname_loop :: "ArithmeticParser \<Rightarrow> ArithmeticParser" where
  "funcname_loop st =
     (let c = deref (data st) in
      if isalpha c then funcname_loop (advance (buf_push_back c st)) else st)"
  by pat_completeness auto

text \<open>
  State \<open>TS_NUMBER\<close> after the digits of the integer part. \<open>atof(buf.data())\<close> reads
  the storage of \<open>buf\<close> from its first byte on: the elements and then whatever follows
  them, since no terminator is appended here.
\<close>

definition TS_NUMBER :: "32 word \<Rightarrow> ArithmeticParser \<Rightarrow> (Token \<times> ArithmeticParser) result" where
  "TS_NUMBER n0 st0 =
     (let (n, st) = number_loop n0 st0 in
      if deref (data st) = CHR ''.'' then
        (let st1 = advance st in
         if \<not> isdigit (deref (data st1)) then Inl (Thrown_chars (data st1), st1)
         else
           (let st2 = buf_push_back (CHR ''.'') (buf_push_back (CHR ''0'') (buf_clear st1));
                st3 = fraction_loop st2;
                value = real_of_int (sint n) + atof (buf st3 @ stale st3)
            in Inr (Token_real T_NUMBER value, st3)))
      else Inr (Token_real T_NUMBER (real_of_int (sint n)), st))"

definition TS_FUNCNAME :: "ArithmeticParser \<Rightarrow> (Token \<times> ArithmeticParser) result" where
  "TS_FUNCNAME st0 =
     (let st = buf_push_back (CHR 0x00) (funcname_loop (buf_clear st0));
          str = buf_data st
      in case find_index str funcnames of
           Some index \<Rightarrow> Inr (Token_int T_FUNC (int index), st)
         | None \<Rightarrow> Inl (Thrown_chars str, st))"

definition TS_DELIM :: "ArithmeticParser \<Rightarrow> (Token \<times> ArithmeticParser) result" where
  "TS_DELIM st =
     (case find_index (deref (data st)) delims of
        Some index \<Rightarrow> Inr (Token_of (token_t_of_index index), advance st)
      | None \<Rightarrow> Inl (Thrown_chars (data st), st))"

function getToken :: "ArithmeticParser \<Rightarrow> (Token \<times> ArithmeticParser) result" where
  "getToken st =
     (let c = deref (data st) in
      if isspace c then getToken (advance st)
      else if tolower c = CHR ''x'' then Inr (Token_of T_X, advance st)
      else if isdigit c then TS_NUMBER (word_of_nat (of_char c) - 48) (advance st)
      else if isalpha c then TS_FUNCNAME st
      else if c = CHR 0x00 then Inr (Token_of T_END, st)
      else TS_DELIM st)"
  by pat_completeness auto

section \<open>The recursive descent parser\<close>

text \<open>
  Modelled from the spec: the member functions \<open>nextToken\<close> and \<open>expectToken\<close>, which
  are defined in the header \<open>include/arithmetic_parser.h\<close> and not in
  \<open>arithmetic_parser.cpp\<close>. \<open>nextToken\<close> stores the lexer's next token as the
  lookahead \<open>token\<close>; \<open>expectToken\<close> fails if the lookahead is not of the given kind
  (the lookahead is taken as the thrown value; \<open>parse\<close> treats every thrown value
  alike) and changes nothing otherwise.
\<close>

definition nextToken :: "ArithmeticParser \<Rightarrow> ArithmeticParser result" where
  "nextToken st =
     (case getToken st of
        Inl e \<Rightarrow> Inl e
      | Inr (t, st') \<Rightarrow> Inr (st'\<lparr>token := t\<rparr>))"

definition expectToken :: "token_t \<Rightarrow> ArithmeticParser \<Rightarrow> ArithmeticParser result" where
  "expectToken tt st =
     (if type (token st) \<noteq> tt then Inl (Thrown_Token (token st), st) else Inr st)"

text \<open>
  The four grammar procedures. \<open>EXPR_while\<close> and \<open>EXPR2_while\<close> are the \<open>while\<close> statements
  of \<open>EXPR\<close> and \<open>EXPR2\<close>. A thrown value leaves the procedure at once, with the state
  the object has at that moment.
\<close>

function EXPR :: "ArithmeticParser \<Rightarrow> ArithmeticParser result"
  and EXPR_while :: "ArithmeticParser \<Rightarrow> ArithmeticParser result"
  and EXPR2 :: "ArithmeticParser \<Rightarrow> ArithmeticParser result"
  and EXPR2_while :: "ArithmeticParser \<Rightarrow> ArithmeticParser result"
  and EXPR3 :: "ArithmeticParser \<Rightarrow> ArithmeticParser result"
  and EXPR4 :: "ArithmeticParser \<Rightarrow> ArithmeticParser result"
where
  "EXPR st =
     (case EXPR2 st of
        Inl e \<Rightarrow> Inl e
      | Inr st1 \<Rightarrow> EXPR_while st1)"
| "EXPR_while st =
     (if type (token st) = T_PLUS \<or> type (token st) = T_MINUS then
        (let tt = type (token st) in
         case nextToken st of
           Inl e \<Rightarrow> Inl e
         | Inr st1 \<Rightarrow>
             (case EXPR2 st1 of
                Inl e \<Rightarrow> Inl e
              | Inr st2 \<Rightarrow> EXPR_while (rpn_push_back (Token_of tt) st2)))
      else Inr st)"
| "EXPR2 st =
     (case EXPR3 st of
        Inl e \<Rightarrow> Inl e
      | Inr st1 \<Rightarrow> EXPR2_while st1)"
| "EXPR2_while st =
     (if type (token st) = T_MUL \<or> type (token st) = T_DIV then
        (let tt = type (token st) in
         case nextToken st of
           Inl e \<Rightarrow> Inl e
         | Inr st1 \<Rightarrow>
             (case EXPR3 st1 of
                Inl e \<Rightarrow> Inl e
              | Inr st2 \<Rightarrow> EXPR2_while (rpn_push_back (Token_of tt) st2)))
      else Inr st)"
| "EXPR3 st =
     (case EXPR4 st of
        Inl e \<Rightarrow> Inl e
      | Inr st1 \<Rightarrow>
          if type (token st1) = T_POW then
            (case nextToken st1 of
               Inl e \<Rightarrow> Inl e
             | Inr st2 \<Rightarrow>
                 (case EXPR4 st2 of
                    Inl e \<Rightarrow> Inl e
                  | Inr st3 \<Rightarrow> Inr (rpn_push_back (Token_of T_POW) st3)))
          else Inr st1)"
| "EXPR4 st =
     (if type (token st) = T_FUNC then
        (let functionIndex = intValue (token st) in
         case nextToken st of
           Inl e \<Rightarrow> Inl e
         | Inr st1 \<Rightarrow>
        (case expectToken T_LPAREN st1 of
           Inl e \<Rightarrow> Inl e
         | Inr st2 \<Rightarrow>
        (case nextToken st2 of
           Inl e \<Rightarrow> Inl e
         | Inr st3 \<Rightarrow>
        (case EXPR st3 of
           Inl e \<Rightarrow> Inl e
         | Inr st4 \<Rightarrow>
        (case expectToken T_RPAREN st4 of
           Inl e \<Rightarrow> Inl e
         | Inr st5 \<Rightarrow>
        (case nextToken st5 of
           Inl e \<Rightarrow> Inl e
         | Inr st6 \<Rightarrow> Inr (rpn_push_back (Token_int T_FUNC functionIndex) st6)))))))
      else if type (token st) = T_X then
        nextToken (rpn_push_back (Token_of T_X) st)
      else if type (token st) = T_NUMBER then
        (case nextToken (rpn_push_back (token st) st) of
           Inl e \<Rightarrow> Inl e
         | Inr st1 \<Rightarrow>
             if type (token st1) = T_X then
               nextToken (rpn_push_back (Token_of T_MUL) (rpn_push_back (Token_of T_X) st1))
             else if type (token st1) = T_LPAREN then
               (case nextToken st1 of
                  Inl e \<Rightarrow> Inl e
                | Inr st2 \<Rightarrow>
               (case EXPR st2 of
                  Inl e \<Rightarrow> Inl e
                | Inr st3 \<Rightarrow>
               (case expectToken T_RPAREN st3 of
                  Inl e \<Rightarrow> Inl e
                | Inr st4 \<Rightarrow>
               (case nextToken st4 of
                  Inl e \<Rightarrow> Inl e
                | Inr st5 \<Rightarrow> Inr (rpn_push_back (Token_of T_MUL) st5)))))
             else Inr st1)
      else if type (token st) = T_LPAREN then
        (case nextToken st of
           Inl e \<Rightarrow> Inl e
         | Inr st1 \<Rightarrow>
        (case EXPR st1 of
           Inl e \<Rightarrow> Inl e
         | Inr st2 \<Rightarrow>
        (case expectToken T_RPAREN st2 of
           Inl e \<Rightarrow> Inl e
         | Inr st3 \<Rightarrow> nextToken st3)))
      else if type (token st) = T_MINUS then
        (case nextToken st of
           Inl e \<Rightarrow> Inl e
         | Inr st1 \<Rightarrow>
             (case EXPR4 st1 of
                Inl e \<Rightarrow> Inl e
              | Inr st2 \<Rightarrow> Inr (rpn_push_back (Token_of T_NEGATE) st2)))
      else Inl (Thrown_Token (token st), st))"
  by pat_completeness auto


text \<open>
  \<open>parse\<close>. The assignments \<open>buf = vector<char>()\<close> and \<open>buf.reserve(80)\<close> give
  \<open>buf\<close> fresh storage; what that storage holds is not determined by the program and
  is the parameter \<open>junk\<close>. Either \<open>catch\<close> clause clears \<open>rpn\<close> and returns
  \<open>false\<close>; the other members stay as they were when the value was thrown.
\<close>

definition parse :: "string \<Rightarrow> ArithmeticParser \<Rightarrow> string \<Rightarrow> bool \<times> ArithmeticParser" where
  "parse junk st s =
     (let st0 = st\<lparr>buf := [], stale := junk, rpn := [], data := s\<rparr> in
      case nextToken st0 of
        Inl (e, st') \<Rightarrow> (False, st'\<lparr>rpn := []\<rparr>)
      | Inr st1 \<Rightarrow>
     (case EXPR st1 of
        Inl (e, st') \<Rightarrow> (False, st'\<lparr>rpn := []\<rparr>)
      | Inr st2 \<Rightarrow>
     (case expectToken T_END st2 of
        Inl (e, st') \<Rightarrow> (False, st'\<lparr>rpn := []\<rparr>)
      | Inr st3 \<Rightarrow> (True, st3))))"

section \<open>The evaluator\<close>

text \<open>
  \<open>pow\<close> of the C library on real numbers: an integral exponent gives the repeated
  product (or its reciprocal), also for a negative base; any other exponent gives the
  real power.
\<close>

definition pow :: "real \<Rightarrow> real \<Rightarrow> real" where
  "pow a b =
     (if b = of_int \<lfloor>b\<rfloor> then (if 0 \<le> b then a ^ nat \<lfloor>b\<rfloor> else 1 / a ^ nat (- \<lfloor>b\<rfloor>))
      else a powr b)"

text \<open>The table \<open>functions\<close> (\<open>functions\<close> is a reserved word of Isabelle).\<close>

definition functions_table :: "(real \<Rightarrow> real) list" where
  "functions_table = [cos, sin, tan, \<lambda>x. 1 / tan x, arcsin, arccos, arctan, ln, log 10, abs]"

text \<open>
  One iteration of the loop of \<open>evaluate\<close>; \<open>nums\<close> is the stack, its top first.
  \<open>None\<close> stands for undefined behaviour: \<open>top\<close> or \<open>pop\<close> on an empty stack, or an
  index outside \<open>functions\<close>.
\<close>

definition evaluate_token :: "real \<Rightarrow> Token \<Rightarrow> real list \<Rightarrow> real list option" where
  "evaluate_token x t nums =
     (if type t = T_NUMBER then Some (realValue t # nums)
      else if type t = T_X then Some (x # nums)
      else
        (let tt = type t in
         case nums of
           [] \<Rightarrow> None
         | op2 # nums1 \<Rightarrow>
             if type t \<noteq> T_NEGATE \<and> type t \<noteq> T_FUNC then
               (case nums1 of
                  [] \<Rightarrow> None
                | op1 # nums2 \<Rightarrow>
                    if tt = T_PLUS then Some ((op1 + op2) # nums2)
                    else if tt = T_MINUS then Some ((op1 - op2) # nums2)
                    else if tt = T_MUL then Some ((op1 * op2) # nums2)
                    else if tt = T_DIV then Some ((op1 / op2) # nums2)
                    else if tt = T_POW then Some (pow op1 op2 # nums2)
                    else Some nums2)
             else if tt = T_NEGATE then Some ((- op2) # nums1)
             else if 0 \<le> intValue t \<and> nat (intValue t) < length functions_table
               then Some ((functions_table ! nat (intValue t)) op2 # nums1)
             else None))"

fun evaluate_loop :: "real \<Rightarrow> Token list \<Rightarrow> real list \<Rightarrow> real list option" where
  "evaluate_loop x [] nums = Some nums"
| "evaluate_loop x (t # ts) nums =
     (case evaluate_token x t nums of
        None \<Rightarrow> None
      | Some nums' \<Rightarrow> evaluate_loop x ts nums')"

definition evaluate :: "ArithmeticParser \<Rightarrow> real \<Rightarrow> real option" where
  "evaluate st x =
     (if length (rpn st) = 0 then Some 0.0
      else
        (case evaluate_loop x (rpn st) [] of
           None \<Rightarrow> None
         | Some nums \<Rightarrow> (case nums of [] \<Rightarrow> None | v # _ \<Rightarrow> Some v)))"



section \<open>Notions used in the proofs\<close>

text \<open>
  The size of a parser state: the characters not yet read, plus one while the lookahead
  is not \<open>T_END\<close>.
\<close>

definition sz :: "ArithmeticParser \<Rightarrow> nat" where
  "sz st = length (data st) + (if type (token st) = T_END then 0 else 1)"

type_synonym descent_arg =
  "(ArithmeticParser + ArithmeticParser + ArithmeticParser)
   + (ArithmeticParser + ArithmeticParser + ArithmeticParser)"

definition descent_size :: "descent_arg \<Rightarrow> nat" where
  "descent_size x =
     (case x of
        Inl (Inl st) \<Rightarrow> sz st
      | Inl (Inr (Inl st)) \<Rightarrow> sz st
      | Inl (Inr (Inr st)) \<Rightarrow> sz st
      | Inr (Inl st) \<Rightarrow> sz st
      | Inr (Inr (Inl st)) \<Rightarrow> sz st
      | Inr (Inr (Inr st)) \<Rightarrow> sz st)"

definition descent_rank :: "descent_arg \<Rightarrow> nat" where
  "descent_rank x =
     (case x of
        Inl (Inl st) \<Rightarrow> 3
      | Inl (Inr (Inl st)) \<Rightarrow> 0
      | Inl (Inr (Inr st)) \<Rightarrow> 2
      | Inr (Inl st) \<Rightarrow> 0
      | Inr (Inr (Inl st)) \<Rightarrow> 1
      | Inr (Inr (Inr st)) \<Rightarrow> 0)"

text \<open>
  A token is valid if, when it is a function token, its index lies inside the table.
  \<open>pushes_one ins\<close>: run on any stack, \<open>ins\<close> never fails and leaves the stack with one
  more value on top. \<open>keeps_one ins\<close>: run on a stack with at least one value, \<open>ins\<close>
  never fails, replaces the top value and touches nothing below it. \<open>emits P st st'\<close>:
  from \<open>st\<close> to \<open>st'\<close> the parser appended to \<open>rpn\<close> a sequence with property \<open>P\<close>,
  and the lookahead of \<open>st'\<close> is valid.
\<close>

definition valid_token :: "Token \<Rightarrow> bool" where
  "valid_token t =
     (type t = T_FUNC \<longrightarrow> 0 \<le> intValue t \<and> nat (intValue t) < length functions_table)"

definition pushes_one :: "Token list \<Rightarrow> bool" where
  "pushes_one ins = (\<forall>x nums. \<exists>v. evaluate_loop x ins nums = Some (v # nums))"

definition keeps_one :: "Token list \<Rightarrow> bool" where
  "keeps_one ins = (\<forall>x v nums. \<exists>v'. evaluate_loop x ins (v # nums) = Some (v' # nums))"

definition emits :: "(Token list \<Rightarrow> bool) \<Rightarrow> ArithmeticParser \<Rightarrow> ArithmeticParser \<Rightarrow> bool" where
  "emits P st st' =
     (valid_token (token st') \<and> (\<exists>ins. rpn st' = rpn st @ ins \<and> P ins))"

section \<open>Termination of the lexer and of the parser\<close>

lemma isdigit_deref: "isdigit (deref d) \<Longrightarrow> d \<noteq> []"
  by (auto simp: isdigit_def deref_def)

lemma isalpha_deref: "isalpha (deref d) \<Longrightarrow> d \<noteq> []"
  by (auto simp: isalpha_def deref_def)

lemma isspace_deref: "isspace (deref d) \<Longrightarrow> d \<noteq> []"
  by (auto simp: isspace_def deref_def)

termination number_loop
  by (relation "measure (\<lambda>(n, st). length (data st))")
    (auto simp: advance_def dest: isdigit_deref)

termination fraction_loop
proof (relation "measure (\<lambda>st. length (data st))")
  fix st st1
  assume "st1 = advance (buf_push_back (deref (data st)) st)"
    and "isdigit (deref (data st1))"
  then have "tl (data st) \<noteq> []"
    by (auto simp: advance_def buf_push_back_def dest: isdigit_deref)
  then have "data st \<noteq> []"
    by auto
  with \<open>st1 = _\<close> show "(st1, st) \<in> measure (\<lambda>st. length (data st))"
    by (simp add: advance_def buf_push_back_def)
qed simp

termination funcname_loop
  by (relation "measure (\<lambda>st. length (data st))")
    (auto simp: advance_def buf_push_back_def dest: isalpha_deref)

termination getToken
  by (relation "measure (\<lambda>st. length (data st))")
    (auto simp: advance_def dest: isspace_deref)


declare number_loop.simps [simp del] fraction_loop.simps [simp del]
  funcname_loop.simps [simp del] getToken.simps [simp del]

lemma number_loop_data:
  "number_loop n st = (n', st') \<Longrightarrow> length (data st') \<le> length (data st)"
proof (induction n st rule: number_loop.induct)
  case (1 n st)
  then show ?case
    by (subst (asm) (2) number_loop.simps)
      (auto simp: Let_def advance_def split: if_splits)
qed

lemma fraction_loop_data: "length (data (fraction_loop st)) \<le> length (data st)"
proof (induction st rule: fraction_loop.induct)
  case (1 st)
  then show ?case
    by (subst fraction_loop.simps)
      (auto simp: Let_def advance_def buf_push_back_def)
qed

lemma funcname_loop_data: "length (data (funcname_loop st)) \<le> length (data st)"
proof (induction st rule: funcname_loop.induct)
  case (1 st)
  then show ?case
    by (subst funcname_loop.simps)
      (auto simp: Let_def advance_def buf_push_back_def)
qed

lemma funcname_loop_consumes:
  assumes "isalpha (deref (data st))"
  shows "length (data (funcname_loop st)) < length (data st)"
proof -
  from assms have ne: "data st \<noteq> []"
    by (rule isalpha_deref)
  have "length (data (funcname_loop (advance (buf_push_back (deref (data st)) st))))
      \<le> length (data (advance (buf_push_back (deref (data st)) st)))"
    by (rule funcname_loop_data)
  also from ne have "\<dots> < length (data st)"
    by (simp add: advance_def buf_push_back_def)
  finally show ?thesis
    using assms by (subst funcname_loop.simps) (simp add: Let_def)
qed

lemma TS_NUMBER_data:
  assumes "TS_NUMBER n st = Inr (t, st')"
  shows "length (data st') \<le> length (data st)"
proof -
  obtain n1 st1 where nl: "number_loop n st = (n1, st1)"
    by (cases "number_loop n st")
  then have le1: "length (data st1) \<le> length (data st)"
    by (rule number_loop_data)
  show ?thesis
  proof (cases "deref (data st1) = CHR ''.'' \<and> isdigit (deref (data (advance st1)))")
    case True
    let ?st2 = "buf_push_back (CHR ''.'') (buf_push_back (CHR ''0'') (buf_clear (advance st1)))"
    from assms nl True have "st' = fraction_loop ?st2"
      by (auto simp: TS_NUMBER_def Let_def)
    moreover have "length (data (fraction_loop ?st2)) \<le> length (data ?st2)"
      by (rule fraction_loop_data)
    moreover have "length (data ?st2) \<le> length (data st1)"
      by (simp add: buf_push_back_def buf_clear_def advance_def)
    ultimately show ?thesis
      using le1 by simp
  next
    case False
    with assms nl have "st' = st1"
      by (auto simp: TS_NUMBER_def Let_def split: if_splits)
    with le1 show ?thesis
      by simp
  qed
qed

lemma find_index_Some: "find_index x ys = Some i \<Longrightarrow> x \<in> set ys"
  by (induction ys arbitrary: i) (auto split: if_splits)

lemma TS_DELIM_data:
  "TS_DELIM st = Inr (t, st') \<Longrightarrow> length (data st') < length (data st)"
  unfolding TS_DELIM_def
  by (auto split: option.splits dest!: find_index_Some simp: delims_def deref_def advance_def split: list.splits)

lemma TS_FUNCNAME_data:
  "isalpha (deref (data st)) \<Longrightarrow> TS_FUNCNAME st = Inr (t, st') \<Longrightarrow> length (data st') < length (data st)"
  unfolding TS_FUNCNAME_def Let_def
  using funcname_loop_consumes [of "buf_clear st"]
  by (auto split: option.splits simp: buf_push_back_def buf_clear_def)

lemma getToken_data:
  "getToken st = Inr (t, st') \<Longrightarrow>
     length (data st') + (if type t = T_END then 0 else 1) \<le> length (data st)"
proof (induction st rule: getToken.induct)
  case (1 st)
  let ?c = "deref (data st)"
  consider (sp) "isspace ?c"
    | (x) "\<not> isspace ?c" "tolower ?c = CHR ''x''"
    | (num) "\<not> isspace ?c" "tolower ?c \<noteq> CHR ''x''" "isdigit ?c"
    | (fn) "\<not> isspace ?c" "tolower ?c \<noteq> CHR ''x''" "\<not> isdigit ?c" "isalpha ?c"
    | (eoi) "\<not> isspace ?c" "tolower ?c \<noteq> CHR ''x''" "\<not> isdigit ?c" "\<not> isalpha ?c" "?c = CHR 0x00"
    | (dl) "\<not> isspace ?c" "tolower ?c \<noteq> CHR ''x''" "\<not> isdigit ?c" "\<not> isalpha ?c" "?c \<noteq> CHR 0x00"
    by blast
  then show ?case
  proof cases
    case sp
    with "1.prems" have "getToken (advance st) = Inr (t, st')"
      by (subst (asm) getToken.simps) (simp add: Let_def)
    with sp "1.IH" have "length (data st') + (if type t = T_END then 0 else 1) \<le> length (data (advance st))"
      by simp
    then show ?thesis
      by (simp add: advance_def)
  next
    case x
    then have "data st \<noteq> []"
      by (auto simp: deref_def tolower_def split: if_splits)
    with x "1.prems" show ?thesis
      by (subst (asm) getToken.simps) (auto simp: Let_def advance_def Token_of_def)
  next
    case num
    then have ne: "data st \<noteq> []"
      by (auto dest: isdigit_deref)
    from num "1.prems" have "TS_NUMBER (word_of_nat (of_char ?c) - 48) (advance st) = Inr (t, st')"
      by (subst (asm) getToken.simps) (simp add: Let_def)
    from TS_NUMBER_data [OF this] ne show ?thesis
      by (cases "data st") (auto simp: advance_def)
  next
    case fn
    with "1.prems" have "TS_FUNCNAME st = Inr (t, st')"
      by (subst (asm) getToken.simps) (simp add: Let_def)
    from TS_FUNCNAME_data [OF fn(4) this] show ?thesis
      by simp
  next
    case eoi
    with "1.prems" show ?thesis
      by (subst (asm) getToken.simps) (auto simp: Let_def Token_of_def)
  next
    case dl
    with "1.prems" have "TS_DELIM st = Inr (t, st')"
      by (subst (asm) getToken.simps) (simp add: Let_def)
    from TS_DELIM_data [OF this] show ?thesis
      by simp
  qed
qed

lemma nextToken_sz:
  "nextToken st = Inr st' \<Longrightarrow> sz st' \<le> length (data st)"
  unfolding nextToken_def sz_def
  by (auto split: sum.splits prod.splits dest!: getToken_data)

lemma nextToken_sz_le: "nextToken st = Inr st' \<Longrightarrow> sz st' \<le> sz st"
  by (drule nextToken_sz) (simp add: sz_def)

lemma nextToken_sz_less:
  "nextToken st = Inr st' \<Longrightarrow> type (token st) \<noteq> T_END \<Longrightarrow> sz st' < sz st"
  by (drule nextToken_sz) (simp add: sz_def)

lemma rpn_push_back_simps [simp]:
  "token (rpn_push_back t st) = token st"
  "data (rpn_push_back t st) = data st"
  "rpn (rpn_push_back t st) = rpn st @ [t]"
  by (simp_all add: rpn_push_back_def)

lemma sz_rpn_push_back [simp]: "sz (rpn_push_back t st) = sz st"
  by (simp add: sz_def rpn_push_back_def)

lemma expectToken_Inr: "expectToken tt st = Inr st' \<longleftrightarrow> st' = st \<and> type (token st) = tt"
  by (auto simp: expectToken_def split: if_splits)


lemma descent_sz_partial:
  "EXPR_EXPR_while_EXPR2_EXPR2_while_EXPR3_EXPR4_dom (Inl (Inl a)) \<Longrightarrow>
     \<forall>r. EXPR a = Inr r \<longrightarrow> sz r \<le> sz a"
  "EXPR_EXPR_while_EXPR2_EXPR2_while_EXPR3_EXPR4_dom (Inl (Inr (Inl b))) \<Longrightarrow>
     \<forall>r. EXPR_while b = Inr r \<longrightarrow> sz r \<le> sz b"
  "EXPR_EXPR_while_EXPR2_EXPR2_while_EXPR3_EXPR4_dom (Inl (Inr (Inr c))) \<Longrightarrow>
     \<forall>r. EXPR2 c = Inr r \<longrightarrow> sz r \<le> sz c"
  "EXPR_EXPR_while_EXPR2_EXPR2_while_EXPR3_EXPR4_dom (Inr (Inl d)) \<Longrightarrow>
     \<forall>r. EXPR2_while d = Inr r \<longrightarrow> sz r \<le> sz d"
  "EXPR_EXPR_while_EXPR2_EXPR2_while_EXPR3_EXPR4_dom (Inr (Inr (Inl e))) \<Longrightarrow>
     \<forall>r. EXPR3 e = Inr r \<longrightarrow> sz r \<le> sz e"
  "EXPR_EXPR_while_EXPR2_EXPR2_while_EXPR3_EXPR4_dom (Inr (Inr (Inr f))) \<Longrightarrow>
     \<forall>r. EXPR4 f = Inr r \<longrightarrow> sz r \<le> sz f"
proof (induct rule: EXPR_EXPR_while_EXPR2_EXPR2_while_EXPR3_EXPR4.pinduct)
  case (1 st)
  show ?case
  proof (intro allI impI)
    fix r assume "EXPR st = Inr r"
    with 1(1) obtain st1 where a: "EXPR2 st = Inr st1" and b: "EXPR_while st1 = Inr r"
      by (auto simp: EXPR.psimps split: sum.splits)
    from 1(2) a have "sz st1 \<le> sz st" by blast
    moreover from 1(3) [OF a] b have "sz r \<le> sz st1" by blast
    ultimately show "sz r \<le> sz st" by simp
  qed
next
  case (2 st)
  show ?case
  proof (intro allI impI)
    fix r assume r: "EXPR_while st = Inr r"
    show "sz r \<le> sz st"
    proof (cases "type (token st) = T_PLUS \<or> type (token st) = T_MINUS")
      case True
      with 2(1) r obtain st1 st2 where a: "nextToken st = Inr st1" and b: "EXPR2 st1 = Inr st2"
        and c: "EXPR_while (rpn_push_back (Token_of (type (token st))) st2) = Inr r"
        by (auto simp: EXPR_while.psimps Let_def split: sum.splits)
      from a have "sz st1 \<le> sz st" by (rule nextToken_sz_le)
      moreover from 2(2) [OF True refl a] b have "sz st2 \<le> sz st1" by blast
      moreover from 2(3) [OF True refl a b] c have "sz r \<le> sz st2" by simp
      ultimately show ?thesis by simp
    next
      case False
      with 2(1) r show ?thesis
        by (auto simp: EXPR_while.psimps)
    qed
  qed
next
  case (3 st)
  show ?case
  proof (intro allI impI)
    fix r assume "EXPR2 st = Inr r"
    with 3(1) obtain st1 where a: "EXPR3 st = Inr st1" and b: "EXPR2_while st1 = Inr r"
      by (auto simp: EXPR2.psimps split: sum.splits)
    from 3(2) a have "sz st1 \<le> sz st" by blast
    moreover from 3(3) [OF a] b have "sz r \<le> sz st1" by blast
    ultimately show "sz r \<le> sz st" by simp
  qed
next
  case (4 st)
  show ?case
  proof (intro allI impI)
    fix r assume r: "EXPR2_while st = Inr r"
    show "sz r \<le> sz st"
    proof (cases "type (token st) = T_MUL \<or> type (token st) = T_DIV")
      case True
      with 4(1) r obtain st1 st2 where a: "nextToken st = Inr st1" and b: "EXPR3 st1 = Inr st2"
        and c: "EXPR2_while (rpn_push_back (Token_of (type (token st))) st2) = Inr r"
        by (auto simp: EXPR2_while.psimps Let_def split: sum.splits)
      from a have "sz st1 \<le> sz st" by (rule nextToken_sz_le)
      moreover from 4(2) [OF True refl a] b have "sz st2 \<le> sz st1" by blast
      moreover from 4(3) [OF True refl a b] c have "sz r \<le> sz st2" by simp
      ultimately show ?thesis by simp
    next
      case False
      with 4(1) r show ?thesis
        by (auto simp: EXPR2_while.psimps)
    qed
  qed
next
  case (5 st)
  show ?case
  proof (intro allI impI)
    fix r assume r: "EXPR3 st = Inr r"
    with 5(1) obtain st1 where a: "EXPR4 st = Inr st1"
      by (auto simp: EXPR3.psimps split: sum.splits)
    from 5(2) a have le1: "sz st1 \<le> sz st" by blast
    show "sz r \<le> sz st"
    proof (cases "type (token st1) = T_POW")
      case True
      with 5(1) r a obtain st2 st3 where b: "nextToken st1 = Inr st2" and c: "EXPR4 st2 = Inr st3"
        and d: "r = rpn_push_back (Token_of T_POW) st3"
        by (auto simp: EXPR3.psimps split: sum.splits)
      from b have "sz st2 \<le> sz st1" by (rule nextToken_sz_le)
      moreover from 5(3) [OF a True b] c have "sz st3 \<le> sz st2" by blast
      ultimately show ?thesis using le1 d by simp
    next
      case False
      with 5(1) r a have "r = st1"
        by (auto simp: EXPR3.psimps)
      with le1 show ?thesis by simp
    qed
  qed
next
  case (6 st)
  show ?case
  proof (intro allI impI)
    fix r assume r: "EXPR4 st = Inr r"
    consider (func) "type (token st) = T_FUNC"
      | (x) "type (token st) = T_X"
      | (num) "type (token st) = T_NUMBER"
      | (lp) "type (token st) = T_LPAREN"
      | (minus) "type (token st) = T_MINUS"
      | (other) "type (token st) \<notin> {T_FUNC, T_X, T_NUMBER, T_LPAREN, T_MINUS}"
      by blast
    then show "sz r \<le> sz st"
    proof cases
      case func
      with 6(1) r obtain st1 st3 st4 st6 where a: "nextToken st = Inr st1"
        and b: "expectToken T_LPAREN st1 = Inr st1" and c: "nextToken st1 = Inr st3"
        and d: "EXPR st3 = Inr st4" and e: "expectToken T_RPAREN st4 = Inr st4"
        and f: "nextToken st4 = Inr st6"
        and g: "r = rpn_push_back (Token_int T_FUNC (intValue (token st))) st6"
        by (auto simp: EXPR4.psimps Let_def split: sum.splits) (auto simp: expectToken_Inr)
      from 6(2) [OF func refl a b c] d have "sz st4 \<le> sz st3" by blast
      with a c f g show ?thesis
        by (auto dest!: nextToken_sz_le)
    next
      case x
      with 6(1) r show ?thesis
        by (auto simp: EXPR4.psimps dest!: nextToken_sz_le)
    next
      case num
      with 6(1) r obtain st1 where a: "nextToken (rpn_push_back (token st) st) = Inr st1"
        by (auto simp: EXPR4.psimps split: sum.splits)
      then have le1: "sz st1 \<le> sz st"
        by (auto dest!: nextToken_sz_le)
      consider (nx) "type (token st1) = T_X" | (nlp) "type (token st1) = T_LPAREN"
        | (nother) "type (token st1) \<noteq> T_X" "type (token st1) \<noteq> T_LPAREN"
        by blast
      then show ?thesis
      proof cases
        case nx
        with 6(1) r num a le1 show ?thesis
          by (auto simp: EXPR4.psimps dest!: nextToken_sz_le)
      next
        case nlp
        with 6(1) r num a obtain st2 st3 st5 where b: "nextToken st1 = Inr st2"
          and c: "EXPR st2 = Inr st3" and d: "expectToken T_RPAREN st3 = Inr st3"
          and e: "nextToken st3 = Inr st5" and f: "r = rpn_push_back (Token_of T_MUL) st5"
          by (auto simp: EXPR4.psimps split: sum.splits) (auto simp: expectToken_Inr)
        from num nlp have "type (token st) \<noteq> T_FUNC" "type (token st) \<noteq> T_X" "type (token st1) \<noteq> T_X"
          by auto
        from 6(3) [OF this(1,2) num a this(3) nlp b] c have "sz st3 \<le> sz st2" by blast
        with b e f le1 show ?thesis
          by (auto dest!: nextToken_sz_le)
      next
        case nother
        with 6(1) r num a le1 show ?thesis
          by (auto simp: EXPR4.psimps)
      qed
    next
      case lp
      with 6(1) r obtain st1 st2 where a: "nextToken st = Inr st1"
        and b: "EXPR st1 = Inr st2" and c: "expectToken T_RPAREN st2 = Inr st2"
        and d: "nextToken st2 = Inr r"
        by (auto simp: EXPR4.psimps split: sum.splits) (auto simp: expectToken_Inr)
      from lp have "type (token st) \<noteq> T_FUNC" "type (token st) \<noteq> T_X" "type (token st) \<noteq> T_NUMBER"
        by auto
      from 6(4) [OF this lp a] b have "sz st2 \<le> sz st1" by blast
      with a d show ?thesis
        by (auto dest!: nextToken_sz_le)
    next
      case minus
      with 6(1) r obtain st1 st2 where a: "nextToken st = Inr st1"
        and b: "EXPR4 st1 = Inr st2" and c: "r = rpn_push_back (Token_of T_NEGATE) st2"
        by (auto simp: EXPR4.psimps split: sum.splits)
      from minus have "type (token st) \<noteq> T_FUNC" "type (token st) \<noteq> T_X" "type (token st) \<noteq> T_NUMBER"
        "type (token st) \<noteq> T_LPAREN"
        by auto
      from 6(5) [OF this minus a] b have "sz st2 \<le> sz st1" by blast
      with a c show ?thesis
        by (auto dest!: nextToken_sz_le)
    next
      case other
      with 6(1) r show ?thesis
        by (auto simp: EXPR4.psimps)
    qed
  qed
qed


termination EXPR
proof (relation "measures [descent_size, descent_rank]", goal_cases)
  case 1
  show ?case by simp
next
  case (2 st)
  show ?case by (simp add: descent_size_def descent_rank_def)
next
  case (3 st st1)
  with descent_sz_partial(3) [of st] show ?case
    by (auto simp: descent_size_def descent_rank_def)
next
  case (4 st tt st1)
  then show ?case
    by (auto simp: descent_size_def dest!: nextToken_sz_less)
next
  case (5 st tt st1 st2)
  with descent_sz_partial(3) [of st1] show ?case
    by (auto simp: descent_size_def dest!: nextToken_sz_less)
next
  case (6 st)
  show ?case by (simp add: descent_size_def descent_rank_def)
next
  case (7 st st1)
  with descent_sz_partial(5) [of st] show ?case
    by (auto simp: descent_size_def descent_rank_def)
next
  case (8 st tt st1)
  then show ?case
    by (auto simp: descent_size_def dest!: nextToken_sz_less)
next
  case (9 st tt st1 st2)
  with descent_sz_partial(5) [of st1] show ?case
    by (auto simp: descent_size_def dest!: nextToken_sz_less)
next
  case (10 st)
  show ?case by (simp add: descent_size_def descent_rank_def)
next
  case (11 st st1 st2)
  with descent_sz_partial(6) [of st] show ?case
    by (auto simp: descent_size_def dest!: nextToken_sz_less)
next
  case (12 st fi st1 st2 st3)
  then show ?case
    by (auto simp: descent_size_def expectToken_Inr dest!: nextToken_sz_less)
next
  case (13 st st1 st2)
  then show ?case
    by (auto simp: descent_size_def dest!: nextToken_sz_less)
next
  case (14 st st1)
  then show ?case
    by (auto simp: descent_size_def dest!: nextToken_sz_less)
next
  case (15 st st1)
  then show ?case
    by (auto simp: descent_size_def dest!: nextToken_sz_less)
qed

declare EXPR.simps [simp del] EXPR_while.simps [simp del] EXPR2.simps [simp del]
  EXPR2_while.simps [simp del] EXPR3.simps [simp del] EXPR4.simps [simp del]

section \<open>Running the parser on a given input\<close>

lemma of_char_eq_88: "(of_char c :: nat) = 88 \<longleftrightarrow> c = CHR ''X''"
proof -
  have "(of_char c :: nat) = of_char (CHR ''X'') \<longleftrightarrow> c = CHR ''X''"
    by (rule of_char_eq_iff)
  then show ?thesis
    by simp
qed

lemma tolower_x: "tolower c = CHR ''x'' \<longleftrightarrow> c = CHR ''x'' \<or> c = CHR ''X''"
proof (cases "65 \<le> (of_char c :: nat) \<and> (of_char c :: nat) \<le> 90")
  case True
  then have "(of_char c + 32 :: nat) mod 256 = of_char c + 32"
    by simp
  with True have "tolower c = CHR ''x'' \<longleftrightarrow> (of_char c :: nat) = 88"
    by (simp add: tolower_def char_of_eq_iff take_bit_eq_mod)
  moreover from True have "c \<noteq> CHR ''x''"
    by auto
  ultimately show ?thesis
    by (simp add: of_char_eq_88)
next
  case False
  then have "c \<noteq> CHR ''X''"
    by auto
  with False show ?thesis
    by (auto simp: tolower_def)
qed

lemmas lex_simps = getToken.simps number_loop.simps fraction_loop.simps funcname_loop.simps
  TS_NUMBER_def TS_FUNCNAME_def TS_DELIM_def nextToken_def expectToken_def
  deref_def advance_def isspace_def isdigit_def isalpha_def tolower_x
  buf_clear_def buf_push_back_def buf_data_def c_str_def delims_def funcnames_def
  token_t_of_index_def Token_of_def Token_real_def Token_int_def rpn_push_back_def Let_def

lemmas parse_simps = EXPR.simps EXPR_while.simps EXPR2.simps EXPR2_while.simps EXPR3.simps
  EXPR4.simps parse_def

lemmas eval_simps = evaluate_def evaluate_token_def pow_def functions_table_def

lemmas atof_simps = atof_def atof_unsigned_def atof_exponent_def decimal_def digit_val_def
  pow10_def isspace_def isdigit_def

text \<open>\<open>atof\<close> stops at the first character that cannot continue the number.\<close>

lemma atof_025: "atof (CHR ''0'' # CHR ''.'' # CHR ''2'' # CHR ''5'' # CHR ''g'' # r) = 1 / 4"
  by (simp add: atof_simps)

lemma atof_055: "atof (CHR ''0'' # CHR ''.'' # CHR ''5'' # CHR ''5'' # CHR ''g'' # r) = 11 / 20"
  by (simp add: atof_simps)

section \<open>Stack balance of the emitted sequence\<close>

lemma evaluate_loop_append:
  "evaluate_loop x (a @ b) nums =
     (case evaluate_loop x a nums of None \<Rightarrow> None | Some nums' \<Rightarrow> evaluate_loop x b nums')"
  by (induction a arbitrary: nums) (auto split: option.splits)

lemma pushes_one_operand:
  "type t = T_X \<or> type t = T_NUMBER \<Longrightarrow> pushes_one [t]"
  by (auto simp: pushes_one_def evaluate_token_def)

lemma keeps_one_Nil: "keeps_one []"
  by (simp add: keeps_one_def)

lemma pushes_keeps: "pushes_one a \<Longrightarrow> keeps_one b \<Longrightarrow> pushes_one (a @ b)"
  unfolding pushes_one_def keeps_one_def
proof (intro allI)
  fix x nums
  assume a: "\<forall>x nums. \<exists>v. evaluate_loop x a nums = Some (v # nums)"
    and b: "\<forall>x v nums. \<exists>v'. evaluate_loop x b (v # nums) = Some (v' # nums)"
  from a obtain v where "evaluate_loop x a nums = Some (v # nums)"
    by blast
  moreover from b obtain v' where "evaluate_loop x b (v # nums) = Some (v' # nums)"
    by blast
  ultimately show "\<exists>v. evaluate_loop x (a @ b) nums = Some (v # nums)"
    by (simp add: evaluate_loop_append)
qed

lemma keeps_keeps: "keeps_one a \<Longrightarrow> keeps_one b \<Longrightarrow> keeps_one (a @ b)"
  unfolding keeps_one_def
proof (intro allI)
  fix x v nums
  assume a: "\<forall>x v nums. \<exists>v'. evaluate_loop x a (v # nums) = Some (v' # nums)"
    and b: "\<forall>x v nums. \<exists>v'. evaluate_loop x b (v # nums) = Some (v' # nums)"
  from a obtain v1 where "evaluate_loop x a (v # nums) = Some (v1 # nums)"
    by blast
  moreover from b obtain v2 where "evaluate_loop x b (v1 # nums) = Some (v2 # nums)"
    by blast
  ultimately show "\<exists>v'. evaluate_loop x (a @ b) (v # nums) = Some (v' # nums)"
    by (simp add: evaluate_loop_append)
qed

lemma keeps_one_binary:
  assumes "pushes_one a" and "tt \<in> {T_PLUS, T_MINUS, T_MUL, T_DIV, T_POW}"
  shows "keeps_one (a @ [Token_of tt])"
  unfolding keeps_one_def
proof (intro allI)
  fix x v nums
  from assms(1) obtain w where "evaluate_loop x a (v # nums) = Some (w # v # nums)"
    unfolding pushes_one_def by blast
  moreover from assms(2) have "\<exists>v'. evaluate_token x (Token_of tt) (w # v # nums) = Some (v' # nums)"
    by (auto simp: evaluate_token_def Token_of_def)
  ultimately show "\<exists>v'. evaluate_loop x (a @ [Token_of tt]) (v # nums) = Some (v' # nums)"
    by (auto simp: evaluate_loop_append)
qed

lemma keeps_one_negate: "keeps_one [Token_of T_NEGATE]"
  by (simp add: keeps_one_def evaluate_token_def Token_of_def)

lemma keeps_one_func:
  "0 \<le> i \<Longrightarrow> nat i < length functions_table \<Longrightarrow> keeps_one [Token_int T_FUNC i]"
  by (simp add: keeps_one_def evaluate_token_def Token_int_def)

lemma find_index_bound: "find_index x ys = Some i \<Longrightarrow> i < length ys"
  by (induction ys arbitrary: i) (auto split: if_splits)

lemma number_loop_rpn: "number_loop n st = (n', st') \<Longrightarrow> rpn st' = rpn st"
proof (induction n st rule: number_loop.induct)
  case (1 n st)
  then show ?case
    by (subst (asm) (2) number_loop.simps)
      (auto simp: Let_def advance_def split: if_splits)
qed

lemma fraction_loop_rpn: "rpn (fraction_loop st) = rpn st"
proof (induction st rule: fraction_loop.induct)
  case (1 st)
  then show ?case
    by (subst fraction_loop.simps)
      (auto simp: Let_def advance_def buf_push_back_def)
qed

lemma funcname_loop_rpn: "rpn (funcname_loop st) = rpn st"
proof (induction st rule: funcname_loop.induct)
  case (1 st)
  then show ?case
    by (subst funcname_loop.simps)
      (auto simp: Let_def advance_def buf_push_back_def)
qed

lemma valid_token_simps [simp]:
  "valid_token (Token_of tt)"
  "valid_token (Token_real T_NUMBER v)"
  by (simp_all add: valid_token_def Token_of_def Token_real_def functions_table_def)

lemma TS_NUMBER_rpn:
  "TS_NUMBER n st = Inr (t, st') \<Longrightarrow> rpn st' = rpn st \<and> valid_token t"
  by (auto simp: TS_NUMBER_def Let_def fraction_loop_rpn buf_push_back_def buf_clear_def
      advance_def split: prod.splits if_splits dest: number_loop_rpn)

lemma length_funcnames: "length funcnames = length functions_table"
  by (simp add: funcnames_def functions_table_def)

lemma TS_FUNCNAME_rpn:
  assumes "TS_FUNCNAME st = Inr (t, st')"
  shows "rpn st' = rpn st \<and> valid_token t"
proof -
  let ?st1 = "buf_push_back (CHR 0x00) (funcname_loop (buf_clear st))"
  from assms obtain index where f: "find_index (buf_data ?st1) funcnames = Some index"
    and t: "t = Token_int T_FUNC (int index)" and st': "st' = ?st1"
    by (auto simp: TS_FUNCNAME_def Let_def split: option.splits)
  from f have "index < length functions_table"
    by (auto dest: find_index_bound simp: length_funcnames)
  with t have "valid_token t"
    by (simp add: valid_token_def Token_int_def)
  moreover from st' have "rpn st' = rpn st"
    by (simp add: buf_push_back_def funcname_loop_rpn buf_clear_def)
  ultimately show ?thesis
    by simp
qed

lemma TS_DELIM_rpn:
  "TS_DELIM st = Inr (t, st') \<Longrightarrow> rpn st' = rpn st \<and> valid_token t"
  by (auto simp: TS_DELIM_def advance_def split: option.splits)

lemma getToken_rpn:
  "getToken st = Inr (t, st') \<Longrightarrow> rpn st' = rpn st \<and> valid_token t"
proof (induction st rule: getToken.induct)
  case (1 st)
  show ?case
  proof (cases "isspace (deref (data st))")
    case True
    with "1.prems" have "getToken (advance st) = Inr (t, st')"
      by (subst (asm) getToken.simps) (simp add: Let_def)
    with True "1.IH" show ?thesis
      by (simp add: advance_def)
  next
    case False
    with "1.prems" show ?thesis
      by (subst (asm) getToken.simps)
        (auto simp: Let_def advance_def split: if_splits
          dest: TS_NUMBER_rpn TS_FUNCNAME_rpn TS_DELIM_rpn)
  qed
qed

lemma nextToken_rpn:
  "nextToken st = Inr st' \<Longrightarrow> rpn st' = rpn st \<and> valid_token (token st')"
  by (auto simp: nextToken_def split: sum.splits prod.splits dest: getToken_rpn)


lemma emits_refl_keeps: "valid_token (token st) \<Longrightarrow> emits keeps_one st st"
  by (auto simp: emits_def keeps_one_Nil)

lemma emits_nextToken:
  "nextToken st = Inr st' \<Longrightarrow> rpn st = rpn st0 @ ins \<Longrightarrow> P ins \<Longrightarrow> emits P st0 st'"
  by (auto simp: emits_def dest: nextToken_rpn)

lemma emits_pushes_keeps:
  "emits pushes_one st st1 \<Longrightarrow> emits keeps_one st1 st2 \<Longrightarrow> emits pushes_one st st2"
  by (auto simp: emits_def intro: pushes_keeps)

lemma emits_binary_keeps:
  assumes "rpn st1 = rpn st" and "emits pushes_one st1 st2"
    and "tt \<in> {T_PLUS, T_MINUS, T_MUL, T_DIV, T_POW}"
    and "emits keeps_one (rpn_push_back (Token_of tt) st2) st3"
  shows "emits keeps_one st st3"
proof -
  from assms(1,2) obtain a where a: "rpn st2 = rpn st @ a" "pushes_one a"
    by (auto simp: emits_def)
  from assms(4) obtain b where b: "rpn st3 = rpn st2 @ [Token_of tt] @ b" "keeps_one b"
    and v: "valid_token (token st3)"
    by (auto simp: emits_def)
  from a(2) assms(3) have "keeps_one (a @ [Token_of tt])"
    by (rule keeps_one_binary)
  from this b(2) have "keeps_one ((a @ [Token_of tt]) @ b)"
    by (rule keeps_keeps)
  with a(1) b(1) v show ?thesis
    by (auto simp: emits_def)
qed

lemma emits_wrapped:
  assumes "rpn st1 = rpn st @ pre" and "emits pushes_one st1 st2"
    and "rpn st3 = rpn st2 @ post" and "valid_token (token st3)"
    and "\<And>a. pushes_one a \<Longrightarrow> pushes_one (pre @ a @ post)"
  shows "emits pushes_one st st3"
proof -
  from assms(2) obtain a where "rpn st2 = rpn st1 @ a" "pushes_one a"
    by (auto simp: emits_def)
  with assms(1,3,4) assms(5) [of a] show ?thesis
    by (auto simp: emits_def)
qed


lemma EXPR_Inr:
  "EXPR st = Inr r \<Longrightarrow> \<exists>st1. EXPR2 st = Inr st1 \<and> EXPR_while st1 = Inr r"
  by (subst (asm) EXPR.simps) (auto split: sum.splits)

lemma EXPR_while_Inr:
  "EXPR_while st = Inr r \<Longrightarrow>
     (if type (token st) = T_PLUS \<or> type (token st) = T_MINUS
      then \<exists>st1 st2. nextToken st = Inr st1 \<and> EXPR2 st1 = Inr st2
        \<and> EXPR_while (rpn_push_back (Token_of (type (token st))) st2) = Inr r
      else r = st)"
  by (subst (asm) EXPR_while.simps) (auto simp: Let_def split: sum.splits if_splits)

lemma EXPR2_Inr:
  "EXPR2 st = Inr r \<Longrightarrow> \<exists>st1. EXPR3 st = Inr st1 \<and> EXPR2_while st1 = Inr r"
  by (subst (asm) EXPR2.simps) (auto split: sum.splits)

lemma EXPR2_while_Inr:
  "EXPR2_while st = Inr r \<Longrightarrow>
     (if type (token st) = T_MUL \<or> type (token st) = T_DIV
      then \<exists>st1 st2. nextToken st = Inr st1 \<and> EXPR3 st1 = Inr st2
        \<and> EXPR2_while (rpn_push_back (Token_of (type (token st))) st2) = Inr r
      else r = st)"
  by (subst (asm) EXPR2_while.simps) (auto simp: Let_def split: sum.splits if_splits)

lemma EXPR3_Inr:
  "EXPR3 st = Inr r \<Longrightarrow>
     \<exists>st1. EXPR4 st = Inr st1 \<and>
       (if type (token st1) = T_POW
        then \<exists>st2 st3. nextToken st1 = Inr st2 \<and> EXPR4 st2 = Inr st3
          \<and> r = rpn_push_back (Token_of T_POW) st3
        else r = st1)"
  by (subst (asm) EXPR3.simps) (auto split: sum.splits if_splits)

lemma EXPR4_FUNC_Inr:
  "EXPR4 st = Inr r \<Longrightarrow> type (token st) = T_FUNC \<Longrightarrow>
     \<exists>st1 st3 st4 st6. nextToken st = Inr st1 \<and> expectToken T_LPAREN st1 = Inr st1
       \<and> nextToken st1 = Inr st3 \<and> EXPR st3 = Inr st4 \<and> expectToken T_RPAREN st4 = Inr st4
       \<and> nextToken st4 = Inr st6
       \<and> r = rpn_push_back (Token_int T_FUNC (intValue (token st))) st6"
  by (subst (asm) EXPR4.simps) (auto simp: Let_def expectToken_Inr split: sum.splits)

lemma EXPR4_X_Inr:
  "EXPR4 st = Inr r \<Longrightarrow> type (token st) = T_X \<Longrightarrow>
     nextToken (rpn_push_back (Token_of T_X) st) = Inr r"
  by (subst (asm) EXPR4.simps) simp

lemma EXPR4_NUMBER_Inr:
  "EXPR4 st = Inr r \<Longrightarrow> type (token st) = T_NUMBER \<Longrightarrow>
     \<exists>st1. nextToken (rpn_push_back (token st) st) = Inr st1 \<and>
       (if type (token st1) = T_X
        then nextToken (rpn_push_back (Token_of T_MUL) (rpn_push_back (Token_of T_X) st1)) = Inr r
        else if type (token st1) = T_LPAREN
        then \<exists>st2 st3 st5. nextToken st1 = Inr st2 \<and> EXPR st2 = Inr st3
          \<and> expectToken T_RPAREN st3 = Inr st3 \<and> nextToken st3 = Inr st5
          \<and> r = rpn_push_back (Token_of T_MUL) st5
        else r = st1)"
  by (subst (asm) EXPR4.simps) (auto simp: expectToken_Inr split: sum.splits if_splits)

lemma EXPR4_LPAREN_Inr:
  "EXPR4 st = Inr r \<Longrightarrow> type (token st) = T_LPAREN \<Longrightarrow>
     \<exists>st1 st2. nextToken st = Inr st1 \<and> EXPR st1 = Inr st2
       \<and> expectToken T_RPAREN st2 = Inr st2 \<and> nextToken st2 = Inr r"
  by (subst (asm) EXPR4.simps) (auto simp: expectToken_Inr split: sum.splits)

lemma EXPR4_MINUS_Inr:
  "EXPR4 st = Inr r \<Longrightarrow> type (token st) = T_MINUS \<Longrightarrow>
     \<exists>st1 st2. nextToken st = Inr st1 \<and> EXPR4 st1 = Inr st2
       \<and> r = rpn_push_back (Token_of T_NEGATE) st2"
  by (subst (asm) EXPR4.simps) (auto split: sum.splits)

lemma EXPR4_other:
  "type (token st) \<notin> {T_FUNC, T_X, T_NUMBER, T_LPAREN, T_MINUS} \<Longrightarrow>
     EXPR4 st = Inl (Thrown_Token (token st), st)"
  by (subst EXPR4.simps) simp

lemma descent_emits:
  "valid_token (token a) \<longrightarrow> (\<forall>r. EXPR a = Inr r \<longrightarrow> emits pushes_one a r)"
  "valid_token (token b) \<longrightarrow> (\<forall>r. EXPR_while b = Inr r \<longrightarrow> emits keeps_one b r)"
  "valid_token (token c) \<longrightarrow> (\<forall>r. EXPR2 c = Inr r \<longrightarrow> emits pushes_one c r)"
  "valid_token (token d) \<longrightarrow> (\<forall>r. EXPR2_while d = Inr r \<longrightarrow> emits keeps_one d r)"
  "valid_token (token e) \<longrightarrow> (\<forall>r. EXPR3 e = Inr r \<longrightarrow> emits pushes_one e r)"
  "valid_token (token f) \<longrightarrow> (\<forall>r. EXPR4 f = Inr r \<longrightarrow> emits pushes_one f r)"
proof (induct rule: EXPR_EXPR_while_EXPR2_EXPR2_while_EXPR3_EXPR4.induct)
  case (1 st)
  show ?case
  proof (intro allI impI)
    fix r assume v: "valid_token (token st)" and r: "EXPR st = Inr r"
    from EXPR_Inr [OF r] obtain st1 where a: "EXPR2 st = Inr st1" and b: "EXPR_while st1 = Inr r"
      by blast
    from 1(1) v a have e1: "emits pushes_one st st1" by blast
    then have "valid_token (token st1)" by (simp add: emits_def)
    with 1(2) [OF a] b have "emits keeps_one st1 r" by blast
    with e1 show "emits pushes_one st r" by (rule emits_pushes_keeps)
  qed
next
  case (2 st)
  show ?case
  proof (intro allI impI)
    fix r assume v: "valid_token (token st)" and r: "EXPR_while st = Inr r"
    show "emits keeps_one st r"
    proof (cases "type (token st) = T_PLUS \<or> type (token st) = T_MINUS")
      case True
      with EXPR_while_Inr [OF r] obtain st1 st2 where a: "nextToken st = Inr st1" and b: "EXPR2 st1 = Inr st2"
        and c: "EXPR_while (rpn_push_back (Token_of (type (token st))) st2) = Inr r"
        by auto
      from a have n: "rpn st1 = rpn st" "valid_token (token st1)"
        by (auto dest: nextToken_rpn)
      with 2(1) [OF True refl a] b have e1: "emits pushes_one st1 st2" by blast
      then have "valid_token (token (rpn_push_back (Token_of (type (token st))) st2))"
        by (simp add: emits_def)
      with 2(2) [OF True refl a b] c
      have e2: "emits keeps_one (rpn_push_back (Token_of (type (token st))) st2) r" by blast
      from True have "type (token st) \<in> {T_PLUS, T_MINUS, T_MUL, T_DIV, T_POW}" by auto
      with n(1) e1 show ?thesis using e2 by (rule emits_binary_keeps)
    next
      case False
      with EXPR_while_Inr [OF r] v show ?thesis
        by (auto intro: emits_refl_keeps)
    qed
  qed
next
  case (3 st)
  show ?case
  proof (intro allI impI)
    fix r assume v: "valid_token (token st)" and r: "EXPR2 st = Inr r"
    from EXPR2_Inr [OF r] obtain st1 where a: "EXPR3 st = Inr st1" and b: "EXPR2_while st1 = Inr r"
      by blast
    from 3(1) v a have e1: "emits pushes_one st st1" by blast
    then have "valid_token (token st1)" by (simp add: emits_def)
    with 3(2) [OF a] b have "emits keeps_one st1 r" by blast
    with e1 show "emits pushes_one st r" by (rule emits_pushes_keeps)
  qed
next
  case (4 st)
  show ?case
  proof (intro allI impI)
    fix r assume v: "valid_token (token st)" and r: "EXPR2_while st = Inr r"
    show "emits keeps_one st r"
    proof (cases "type (token st) = T_MUL \<or> type (token st) = T_DIV")
      case True
      with EXPR2_while_Inr [OF r] obtain st1 st2 where a: "nextToken st = Inr st1" and b: "EXPR3 st1 = Inr st2"
        and c: "EXPR2_while (rpn_push_back (Token_of (type (token st))) st2) = Inr r"
        by auto
      from a have n: "rpn st1 = rpn st" "valid_token (token st1)"
        by (auto dest: nextToken_rpn)
      with 4(1) [OF True refl a] b have e1: "emits pushes_one st1 st2" by blast
      then have "valid_token (token (rpn_push_back (Token_of (type (token st))) st2))"
        by (simp add: emits_def)
      with 4(2) [OF True refl a b] c
      have e2: "emits keeps_one (rpn_push_back (Token_of (type (token st))) st2) r" by blast
      from True have "type (token st) \<in> {T_PLUS, T_MINUS, T_MUL, T_DIV, T_POW}" by auto
      with n(1) e1 show ?thesis using e2 by (rule emits_binary_keeps)
    next
      case False
      with EXPR2_while_Inr [OF r] v show ?thesis
        by (auto intro: emits_refl_keeps)
    qed
  qed
next
  case (5 st)
  show ?case
  proof (intro allI impI)
    fix r assume v: "valid_token (token st)" and r: "EXPR3 st = Inr r"
    from EXPR3_Inr [OF r] obtain st1 where a: "EXPR4 st = Inr st1"
      and rest: "if type (token st1) = T_POW
        then \<exists>st2 st3. nextToken st1 = Inr st2 \<and> EXPR4 st2 = Inr st3
          \<and> r = rpn_push_back (Token_of T_POW) st3
        else r = st1"
      by blast
    from 5(1) v a have e1: "emits pushes_one st st1" by blast
    show "emits pushes_one st r"
    proof (cases "type (token st1) = T_POW")
      case True
      with rest obtain st2 st3 where b: "nextToken st1 = Inr st2" and c: "EXPR4 st2 = Inr st3"
        and d: "r = rpn_push_back (Token_of T_POW) st3"
        by auto
      from b have n: "rpn st2 = rpn st1" "valid_token (token st2)"
        by (auto dest: nextToken_rpn)
      with 5(2) [OF a True b] c have e2: "emits pushes_one st2 st3" by blast
      have "emits keeps_one (rpn_push_back (Token_of T_POW) st3) r"
        using d e2 by (auto simp: emits_def keeps_one_Nil)
      with n(1) e2 have "emits keeps_one st1 r"
        by (rule emits_binary_keeps [where tt = T_POW, simplified])
      with e1 show ?thesis by (rule emits_pushes_keeps)
    next
      case False
      with rest have "r = st1"
        by simp
      with e1 show ?thesis by simp
    qed
  qed
next
  case (6 st)
  show ?case
  proof (intro allI impI)
    fix r assume v: "valid_token (token st)" and r: "EXPR4 st = Inr r"
    consider (func) "type (token st) = T_FUNC"
      | (x) "type (token st) = T_X"
      | (num) "type (token st) = T_NUMBER"
      | (lp) "type (token st) = T_LPAREN"
      | (minus) "type (token st) = T_MINUS"
      | (other) "type (token st) \<notin> {T_FUNC, T_X, T_NUMBER, T_LPAREN, T_MINUS}"
      by blast
    then show "emits pushes_one st r"
    proof cases
      case func
      from EXPR4_FUNC_Inr [OF r func] obtain st1 st3 st4 st6 where a: "nextToken st = Inr st1"
        and b: "expectToken T_LPAREN st1 = Inr st1" and c: "nextToken st1 = Inr st3"
        and d: "EXPR st3 = Inr st4" and e: "expectToken T_RPAREN st4 = Inr st4"
        and f: "nextToken st4 = Inr st6"
        and g: "r = rpn_push_back (Token_int T_FUNC (intValue (token st))) st6"
        by blast
      from a c have n: "rpn st3 = rpn st @ []" "valid_token (token st3)"
        by (auto dest!: nextToken_rpn)
      with 6(1) [OF func refl a b c] d have e1: "emits pushes_one st3 st4" by blast
      from f g have p: "rpn r = rpn st4 @ [Token_int T_FUNC (intValue (token st))]"
        "valid_token (token r)"
        by (auto dest!: nextToken_rpn)
      from v func have k: "keeps_one [Token_int T_FUNC (intValue (token st))]"
        by (auto simp: valid_token_def intro: keeps_one_func)
      from n(1) e1 p show ?thesis
      proof (rule emits_wrapped)
        fix a assume "pushes_one a"
        with k show "pushes_one ([] @ a @ [Token_int T_FUNC (intValue (token st))])"
          by (auto intro: pushes_keeps)
      qed
    next
      case x
      with r have "nextToken (rpn_push_back (Token_of T_X) st) = Inr r"
        by (rule EXPR4_X_Inr)
      then show ?thesis
        by (rule emits_nextToken) (auto intro: pushes_one_operand simp: Token_of_def)
    next
      case num
      from EXPR4_NUMBER_Inr [OF r num] obtain st1
        where a: "nextToken (rpn_push_back (token st) st) = Inr st1"
        and rest: "if type (token st1) = T_X
          then nextToken (rpn_push_back (Token_of T_MUL) (rpn_push_back (Token_of T_X) st1)) = Inr r
          else if type (token st1) = T_LPAREN
          then \<exists>st2 st3 st5. nextToken st1 = Inr st2 \<and> EXPR st2 = Inr st3
            \<and> expectToken T_RPAREN st3 = Inr st3 \<and> nextToken st3 = Inr st5
            \<and> r = rpn_push_back (Token_of T_MUL) st5
          else r = st1"
        by blast
      from a have n1: "rpn st1 = rpn st @ [token st]" "valid_token (token st1)"
        by (auto dest!: nextToken_rpn)
      from num have pn: "pushes_one [token st]"
        by (auto intro: pushes_one_operand)
      consider (nx) "type (token st1) = T_X" | (nlp) "type (token st1) = T_LPAREN"
        | (nother) "type (token st1) \<noteq> T_X" "type (token st1) \<noteq> T_LPAREN"
        by blast
      then show ?thesis
      proof cases
        case nx
        with rest have
          "nextToken (rpn_push_back (Token_of T_MUL) (rpn_push_back (Token_of T_X) st1)) = Inr r"
          by simp
        then show ?thesis
        proof (rule emits_nextToken)
          show "rpn (rpn_push_back (Token_of T_MUL) (rpn_push_back (Token_of T_X) st1))
              = rpn st @ ([token st] @ ([Token_of T_X] @ [Token_of T_MUL]))"
            using n1 by simp
          have "pushes_one [Token_of T_X]"
            by (auto intro: pushes_one_operand simp: Token_of_def)
          then have "keeps_one ([Token_of T_X] @ [Token_of T_MUL])"
            by (rule keeps_one_binary) simp
          with pn show "pushes_one ([token st] @ ([Token_of T_X] @ [Token_of T_MUL]))"
            by (rule pushes_keeps)
        qed
      next
        case nlp
        with rest obtain st2 st3 st5 where b: "nextToken st1 = Inr st2"
          and c: "EXPR st2 = Inr st3" and d: "expectToken T_RPAREN st3 = Inr st3"
          and e: "nextToken st3 = Inr st5" and f: "r = rpn_push_back (Token_of T_MUL) st5"
          by auto
        from num nlp have "type (token st) \<noteq> T_FUNC" "type (token st) \<noteq> T_X" "type (token st1) \<noteq> T_X"
          by auto
        note ih = 6(2) [OF this(1,2) num a this(3) nlp b]
        from b n1 have n2: "rpn st2 = rpn st @ [token st]" "valid_token (token st2)"
          by (auto dest!: nextToken_rpn)
        with ih c have e1: "emits pushes_one st2 st3" by blast
        from e f have p: "rpn r = rpn st3 @ [Token_of T_MUL]" "valid_token (token r)"
          by (auto dest!: nextToken_rpn)
        from n2(1) e1 p show ?thesis
        proof (rule emits_wrapped)
          fix a assume "pushes_one a"
          then have "keeps_one (a @ [Token_of T_MUL])"
            by (rule keeps_one_binary) simp
          with pn show "pushes_one ([token st] @ a @ [Token_of T_MUL])"
            by (rule pushes_keeps)
        qed
      next
        case nother
        with rest have "r = st1"
          by simp
        with n1 pn show ?thesis
          by (auto simp: emits_def)
      qed
    next
      case lp
      from EXPR4_LPAREN_Inr [OF r lp] obtain st1 st2 where a: "nextToken st = Inr st1"
        and b: "EXPR st1 = Inr st2" and c: "expectToken T_RPAREN st2 = Inr st2"
        and d: "nextToken st2 = Inr r"
        by blast
      from lp have "type (token st) \<noteq> T_FUNC" "type (token st) \<noteq> T_X" "type (token st) \<noteq> T_NUMBER"
        by auto
      note ih = 6(3) [OF this lp a]
      from a have n: "rpn st1 = rpn st @ []" "valid_token (token st1)"
        by (auto dest!: nextToken_rpn)
      with ih b have e1: "emits pushes_one st1 st2" by blast
      from d have p: "rpn r = rpn st2 @ []" "valid_token (token r)"
        by (auto dest!: nextToken_rpn)
      from n(1) e1 p show ?thesis
        by (rule emits_wrapped) simp
    next
      case minus
      from EXPR4_MINUS_Inr [OF r minus] obtain st1 st2 where a: "nextToken st = Inr st1"
        and b: "EXPR4 st1 = Inr st2" and c: "r = rpn_push_back (Token_of T_NEGATE) st2"
        by blast
      from minus have "type (token st) \<noteq> T_FUNC" "type (token st) \<noteq> T_X" "type (token st) \<noteq> T_NUMBER"
        "type (token st) \<noteq> T_LPAREN"
        by auto
      note ih = 6(4) [OF this minus a]
      from a have n: "rpn st1 = rpn st @ []" "valid_token (token st1)"
        by (auto dest!: nextToken_rpn)
      with ih b have e1: "emits pushes_one st1 st2" by blast
      then have "valid_token (token st2)" by (simp add: emits_def)
      with c have p: "rpn r = rpn st2 @ [Token_of T_NEGATE]" "valid_token (token r)"
        by simp_all
      from n(1) e1 p show ?thesis
      proof (rule emits_wrapped)
        fix a assume "pushes_one a"
        then show "pushes_one ([] @ a @ [Token_of T_NEGATE])"
          by (auto intro: pushes_keeps keeps_one_negate)
      qed
    next
      case other
      with r show ?thesis
        by (simp add: EXPR4_other)
    qed
  qed
qed

section \<open>Function names\<close>

lemma isalpha_not_other: "isalpha c \<Longrightarrow> \<not> isspace c \<and> \<not> isdigit c \<and> c \<noteq> CHR 0x00"
  by (auto simp: isalpha_def isspace_def isdigit_def)

lemma funcname_loop_run:
  "\<forall>c\<in>set w. isalpha c \<Longrightarrow> \<not> isalpha (deref r) \<Longrightarrow> data st = w @ r \<Longrightarrow>
     data (funcname_loop st) = r \<and> buf (funcname_loop st) = buf st @ w"
proof (induction w arbitrary: st)
  case Nil
  then show ?case
    by (subst (1 2) funcname_loop.simps) simp
next
  case (Cons c w)
  let ?st1 = "advance (buf_push_back c st)"
  from Cons.prems have step: "funcname_loop st = funcname_loop ?st1"
    by (subst funcname_loop.simps) (simp add: deref_def)
  from Cons.prems have "data ?st1 = w @ r"
    by (simp add: advance_def buf_push_back_def)
  with Cons.IH [of ?st1] Cons.prems
  have "data (funcname_loop ?st1) = r \<and> buf (funcname_loop ?st1) = buf ?st1 @ w"
    by simp
  with step show ?case
    by (simp add: advance_def buf_push_back_def)
qed

lemma c_str_terminated: "\<forall>c\<in>set w. c \<noteq> CHR 0x00 \<Longrightarrow> c_str (w @ CHR 0x00 # r) = w"
  by (simp add: c_str_def takeWhile_tail)

lemma TS_FUNCNAME_run:
  assumes "\<forall>c\<in>set w. isalpha c" and "\<not> isalpha (deref r)" and "data st = w @ r"
  shows "TS_FUNCNAME st =
     (case find_index w funcnames of
        Some index \<Rightarrow> Inr (Token_int T_FUNC (int index), buf_push_back (CHR 0x00) (funcname_loop (buf_clear st)))
      | None \<Rightarrow> Inl (Thrown_chars w, buf_push_back (CHR 0x00) (funcname_loop (buf_clear st))))"
proof -
  let ?st1 = "funcname_loop (buf_clear st)"
  from assms have "data (buf_clear st) = w @ r"
    by (simp add: buf_clear_def)
  from funcname_loop_run [OF assms(1,2) this] have b: "buf ?st1 = w"
    by (simp add: buf_clear_def)
  from assms(1) have "\<forall>c\<in>set w. c \<noteq> CHR 0x00"
    by (auto dest: isalpha_not_other)
  then have "buf_data (buf_push_back (CHR 0x00) ?st1) = w"
    using b by (simp add: buf_data_def buf_push_back_def c_str_terminated)
  then show ?thesis
    by (simp add: TS_FUNCNAME_def Let_def split: option.splits)
qed

lemma funcnames_lower: "n \<in> set funcnames \<Longrightarrow> map tolower n = n"
  by (auto simp: funcnames_def tolower_def)

lemma funcnames_cases:
  "w \<in> set funcnames \<longleftrightarrow> w = ''cos'' \<or> w = ''sin'' \<or> w = ''tg'' \<or> w = ''ctg'' \<or> w = ''arcsin''
     \<or> w = ''arccos'' \<or> w = ''arctg'' \<or> w = ''ln'' \<or> w = ''lg'' \<or> w = ''abs''"
  by (auto simp: funcnames_def)

lemma parse_known_funcname:
  assumes "w \<in> set funcnames"
  shows "fst (parse junk st (w @ ''(x)''))"
  using assms unfolding funcnames_cases
  by (elim disjE) (simp_all add: lex_simps parse_simps)

lemma getToken_after_x:
  assumes "\<forall>c\<in>set w. isalpha c" and "data st = w @ ''(x)''" and "getToken st = Inr (t, st')"
  shows "type t = T_X \<or> type t = T_FUNC \<or> type t = T_LPAREN"
proof (cases w)
  case Nil
  with assms(2,3) show ?thesis
    by (auto simp: lex_simps)
next
  case (Cons c w')
  with assms(1) have c: "isalpha c" "\<not> isspace c" "\<not> isdigit c"
    by (auto dest: isalpha_not_other)
  have r: "\<not> isalpha (deref ''(x)'')"
    by (simp add: deref_def isalpha_def)
  show ?thesis
  proof (cases "tolower c = CHR ''x''")
    case True
    with assms(2,3) Cons c show ?thesis
      by (subst (asm) getToken.simps) (auto simp: deref_def Token_of_def)
  next
    case False
    with assms(2,3) Cons c have "TS_FUNCNAME st = Inr (t, st')"
      by (subst (asm) getToken.simps) (auto simp: deref_def)
    with TS_FUNCNAME_run [OF assms(1) r assms(2)] show ?thesis
      by (auto simp: Token_int_def split: option.splits)
  qed
qed

lemma parse_x_prefix:
  assumes "\<forall>c\<in>set w. isalpha c" and "c = CHR ''x'' \<or> c = CHR ''X''"
  shows "\<not> fst (parse junk st (c # w @ ''(x)''))"
proof -
  let ?st0 = "st\<lparr>buf := [], stale := junk, rpn := [], data := c # w @ ''(x)''\<rparr>"
  let ?st1 = "(advance ?st0)\<lparr>token := Token_of T_X\<rparr>"
  let ?st2 = "rpn_push_back (Token_of T_X) ?st1"
  from assms(2) have n0: "nextToken ?st0 = Inr ?st1"
    by (auto simp: nextToken_def getToken.simps deref_def isspace_def tolower_x)
  have d: "data ?st2 = w @ ''(x)''"
    by (simp add: advance_def)
  have tx: "type (token ?st1) = T_X"
    by (simp add: Token_of_def)
  show ?thesis
  proof (cases "getToken ?st2")
    case (Inl e)
    then have "EXPR4 ?st1 = Inl e"
      using tx by (subst EXPR4.simps) (simp add: nextToken_def)
    then have "EXPR ?st1 = Inl e"
      by (simp add: EXPR.simps EXPR2.simps EXPR3.simps)
    with n0 show ?thesis
      by (simp add: parse_def split: prod.splits)
  next
    case (Inr p)
    obtain t st' where p: "p = (t, st')"
      by (cases p)
    from getToken_after_x [OF assms(1) d] Inr p
    have ty: "type t = T_X \<or> type t = T_FUNC \<or> type t = T_LPAREN"
      by simp
    from Inr p tx have "EXPR4 ?st1 = Inr (st'\<lparr>token := t\<rparr>)"
      by (subst EXPR4.simps) (simp add: nextToken_def)
    with ty have "EXPR ?st1 = Inr (st'\<lparr>token := t\<rparr>)"
      by (auto simp: EXPR.simps EXPR2.simps EXPR3.simps EXPR_while.simps EXPR2_while.simps)
    with n0 ty show ?thesis
      by (auto simp: parse_def expectToken_def)
  qed
qed

lemma parse_unknown_funcname:
  assumes "\<forall>c\<in>set w. isalpha c" and "w \<noteq> []" and "w \<notin> set funcnames"
  shows "\<not> fst (parse junk st (w @ ''(x)''))"
proof -
  from assms(2) obtain c w' where w: "w = c # w'"
    by (cases w) auto
  show ?thesis
  proof (cases "c = CHR ''x'' \<or> c = CHR ''X''")
    case True
    with parse_x_prefix [of w' c junk st] assms(1) w show ?thesis
      by simp
  next
    case False
    let ?st0 = "st\<lparr>buf := [], stale := junk, rpn := [], data := w @ ''(x)''\<rparr>"
    from assms(1) w have c: "isalpha c" "\<not> isspace c" "\<not> isdigit c"
      by (auto dest: isalpha_not_other)
    have r: "\<not> isalpha (deref ''(x)'')"
      by (simp add: deref_def isalpha_def)
    have "data ?st0 = w @ ''(x)''"
      by simp
    from TS_FUNCNAME_run [OF assms(1) r this] assms(3)
    have "\<exists>e. TS_FUNCNAME ?st0 = Inl e"
      by (cases "find_index w funcnames") (auto dest: find_index_Some)
    with False c w have "\<exists>e. getToken ?st0 = Inl e"
      by (subst getToken.simps) (auto simp: deref_def tolower_x)
    then show ?thesis
      by (auto simp: parse_def nextToken_def)
  qed
qed

lemma isalpha_tolower: "isalpha (tolower c) \<Longrightarrow> isalpha c"
  by (auto simp: tolower_def isalpha_def split: if_splits)

section \<open>Properties\<close>

text \<open>
  C1. Whenever \<open>parse\<close> returns \<open>true\<close>, the compiled sequence is stack-balanced: run
  from the empty stack at any \<open>x\<close>, the loop of \<open>evaluate\<close> never takes a value from
  an empty stack (and never indexes outside the function table), it ends with exactly
  one value on the stack, and \<open>evaluate\<close> returns that value.
\<close>

theorem C1_successful_parse_is_balanced:
  assumes "parse junk st s = (True, st')"
  shows "\<exists>v. evaluate_loop x (rpn st') [] = Some [v] \<and> evaluate st' x = Some v"
proof -
  let ?st0 = "st\<lparr>buf := [], stale := junk, rpn := [], data := s\<rparr>"
  from assms obtain st1 where a: "nextToken ?st0 = Inr st1" and b: "EXPR st1 = Inr st'"
    by (auto simp: parse_def expectToken_def split: sum.splits prod.splits if_splits)
  from a have "rpn st1 = []" "valid_token (token st1)"
    by (auto dest!: nextToken_rpn)
  with descent_emits(1) [of st1] b have "pushes_one (rpn st')"
    by (auto simp: emits_def)
  then obtain v where v: "evaluate_loop x (rpn st') [] = Some [v]"
    unfolding pushes_one_def by blast
  then have "rpn st' \<noteq> []"
    by auto
  with v show ?thesis
    by (auto simp: evaluate_def)
qed

theorem C1_successful_parse_is_balanced_witness:
  "parse [] \<lparr>data = [], token = Token_of T_END, rpn = [], buf = [], stale = []\<rparr> ''3x''
     = (True, snd (parse [] \<lparr>data = [], token = Token_of T_END, rpn = [], buf = [], stale = []\<rparr> ''3x''))
   \<and> (\<exists>v. evaluate_loop 2
         (rpn (snd (parse [] \<lparr>data = [], token = Token_of T_END, rpn = [], buf = [], stale = []\<rparr> ''3x''))) []
           = Some [v]
       \<and> evaluate (snd (parse [] \<lparr>data = [], token = Token_of T_END, rpn = [], buf = [], stale = []\<rparr> ''3x'')) 2
           = Some v)"
proof -
  let ?st = "\<lparr>data = [], token = Token_of T_END, rpn = [], buf = [], stale = []\<rparr>"
  have ok: "parse [] ?st ''3x'' = (True, snd (parse [] ?st ''3x''))"
    by (simp add: lex_simps parse_simps)
  from C1_successful_parse_is_balanced [OF ok, of 2] ok show ?thesis
    by blast
qed

text \<open>
  C2. Whatever the input, if \<open>parse\<close> returns \<open>false\<close> then \<open>rpn\<close> is left empty and
  \<open>evaluate\<close> returns \<open>0.0\<close> for every \<open>x\<close>; and on any parser whose \<open>rpn\<close> is empty
  (a new one, or one whose parses all failed) \<open>evaluate\<close> returns \<open>0.0\<close> for every \<open>x\<close>.
\<close>

theorem C2_failed_parse_leaves_empty:
  "(\<not> fst (parse junk st s) \<longrightarrow>
      rpn (snd (parse junk st s)) = [] \<and> evaluate (snd (parse junk st s)) x = Some 0)
   \<and> (rpn st = [] \<longrightarrow> evaluate st x = Some 0)"
  by (auto simp: parse_def Let_def evaluate_def split: sum.splits prod.splits)

theorem C2_failed_parse_leaves_empty_witness:
  "\<not> fst (parse [] \<lparr>data = [], token = Token_of T_END, rpn = [], buf = [], stale = []\<rparr> ''2+'')
   \<and> rpn (snd (parse [] \<lparr>data = [], token = Token_of T_END, rpn = [], buf = [], stale = []\<rparr> ''2+'')) = []
   \<and> evaluate (snd (parse [] \<lparr>data = [], token = Token_of T_END, rpn = [], buf = [], stale = []\<rparr> ''2+'')) 7 = Some 0
   \<and> evaluate \<lparr>data = [], token = Token_of T_END, rpn = [], buf = [], stale = []\<rparr> 7 = Some 0"
proof -
  let ?st = "\<lparr>data = [], token = Token_of T_END, rpn = [], buf = [], stale = []\<rparr>"
  have failed: "\<not> fst (parse [] ?st ''2+'')"
    by (simp add: lex_simps parse_simps)
  have empty: "rpn ?st = []"
    by simp
  from C2_failed_parse_leaves_empty [of "[]" ?st "''2+''" 7] failed empty show ?thesis
    by blast
qed


text \<open>
  C4. A decimal literal should lex to the number it denotes. The \<open>TS_NUMBER\<close> branch
  hands \<open>buf.data()\<close> to \<open>atof\<close> without appending a terminator (the \<open>TS_FUNCNAME\<close>
  branch appends one), so \<open>atof\<close> reads on into what the storage held before. On
  \<open>arctg(x)+1.25+2.5\<close> the storage holds \<open>0.25g\<close> after the first literal and \<open>0.55g\<close>
  when the second is converted: for every content of the fresh storage, \<open>parse\<close> returns
  \<open>true\<close>, the literal \<open>2.5\<close> is compiled as the number \<open>2.55\<close>, and \<open>evaluate(x)\<close>
  returns \<open>arctan x + 1.25 + 2.55\<close>.
\<close>

theorem C4_decimal_reads_stale_buffer:
  "fst (parse junk st ''arctg(x)+1.25+2.5'')
   \<and> rpn (snd (parse junk st ''arctg(x)+1.25+2.5'')) =
       [Token_of T_X, Token_int T_FUNC 6, Token_real T_NUMBER (5 / 4), Token_of T_PLUS,
        Token_real T_NUMBER (51 / 20), Token_of T_PLUS]
   \<and> evaluate (snd (parse junk st ''arctg(x)+1.25+2.5'')) x = Some (arctan x + 5 / 4 + 51 / 20)"
proof -
  have p: "fst (parse junk st ''arctg(x)+1.25+2.5'')"
    by (simp add: lex_simps parse_simps)
  have r: "rpn (snd (parse junk st ''arctg(x)+1.25+2.5'')) =
       [Token_of T_X, Token_int T_FUNC 6, Token_real T_NUMBER (5 / 4), Token_of T_PLUS,
        Token_real T_NUMBER (51 / 20), Token_of T_PLUS]"
    by (simp add: lex_simps parse_simps) (simp add: atof_025 atof_055)
  have "evaluate (snd (parse junk st ''arctg(x)+1.25+2.5'')) x = Some (arctan x + 5 / 4 + 51 / 20)"
    unfolding evaluate_def r
    by (simp add: evaluate_token_def functions_table_def Token_of_def Token_int_def Token_real_def)
  with p r show ?thesis
    by blast
qed




text \<open>
  C8. Unary minus binds tighter than \<open>^\<close>: \<open>parse("-x^2")\<close> returns \<open>true\<close>, compiles to
  \<open>x NEGATE 2 ^\<close>, and for every \<open>x\<close> \<open>evaluate(x)\<close> is \<open>(-x)^2\<close>; \<open>evaluate(2)\<close> is \<open>4\<close>,
  not \<open>-(2^2)\<close>.
\<close>

theorem C8_negate_before_power:
  "fst (parse junk st ''-x^2'')
   \<and> rpn (snd (parse junk st ''-x^2'')) =
       [Token_of T_X, Token_of T_NEGATE, Token_real T_NUMBER 2, Token_of T_POW]
   \<and> evaluate (snd (parse junk st ''-x^2'')) x = Some ((- x) ^ 2)
   \<and> evaluate (snd (parse junk st ''-x^2'')) 2 = Some 4
   \<and> evaluate (snd (parse junk st ''-x^2'')) 2 \<noteq> Some (- (2 ^ 2))"
proof -
  have "fst (parse junk st ''-x^2'')"
    and "rpn (snd (parse junk st ''-x^2'')) =
       [Token_of T_X, Token_of T_NEGATE, Token_real T_NUMBER 2, Token_of T_POW]"
    and "evaluate (snd (parse junk st ''-x^2'')) x = Some ((- x) ^ 2)"
    and "evaluate (snd (parse junk st ''-x^2'')) 2 = Some 4"
    and "evaluate (snd (parse junk st ''-x^2'')) 2 \<noteq> Some (- (2 ^ 2))"
    by (simp_all add: lex_simps parse_simps eval_simps)
  then show ?thesis
    by blast
qed


text \<open>
  C10. Function names are matched exactly although the variable is accepted in either
  case: for every name of the table and every spelling \<open>w\<close> of it that differs at most
  in the case of its letters, \<open>parse\<close> of \<open>w\<close> followed by \<open>(x)\<close> returns \<open>true\<close> if and
  only if \<open>w\<close> is the name itself. \<open>parse("COS(x)")\<close> returns \<open>false\<close> and
  \<open>parse("cos(X)")\<close> returns \<open>true\<close>.
\<close>

theorem C10_function_names_case_sensitive:
  "(name \<in> set funcnames \<longrightarrow> map tolower w = name \<longrightarrow>
      fst (parse junk st (w @ ''(x)'')) = (w = name))
   \<and> \<not> fst (parse junk st ''COS(x)'')
   \<and> fst (parse junk st ''cos(X)'')"
proof -
  have "fst (parse junk st (w @ ''(x)'')) = (w = name)"
    if name: "name \<in> set funcnames" and w: "map tolower w = name"
  proof (cases "w = name")
    case True
    with name parse_known_funcname [of w junk st] show ?thesis
      by simp
  next
    case False
    from name have "\<forall>c\<in>set name. isalpha c" and "name \<noteq> []"
      by (auto simp: funcnames_def isalpha_def)
    with w have al: "\<forall>c\<in>set w. isalpha c" and ne: "w \<noteq> []"
      by (auto dest: isalpha_tolower)
    have "w \<notin> set funcnames"
    proof
      assume "w \<in> set funcnames"
      then have "map tolower w = w"
        by (rule funcnames_lower)
      with w False show False
        by simp
    qed
    from parse_unknown_funcname [OF al ne this] False show ?thesis
      by simp
  qed
  moreover have "\<not> fst (parse junk st ''COS(x)'')"
    by (simp add: lex_simps parse_simps)
  moreover have "fst (parse junk st ''cos(X)'')"
    by (simp add: lex_simps parse_simps)
  ultimately show ?thesis
    by blast
qed

theorem C10_function_names_case_sensitive_witness:
  "''cos'' \<in> set funcnames \<and> map tolower ''COS'' = ''cos''
   \<and> fst (parse [] \<lparr>data = [], token = Token_of T_END, rpn = [], buf = [], stale = []\<rparr>
        (''COS'' @ ''(x)'')) = (''COS'' = ''cos'')"
proof -
  let ?st = "\<lparr>data = [], token = Token_of T_END, rpn = [], buf = [], stale = []\<rparr>"
  have h: "''cos'' \<in> set funcnames" "map tolower ''COS'' = ''cos''"
    by (simp_all add: funcnames_def tolower_def char_of_eq_iff take_bit_eq_mod)
  with C10_function_names_case_sensitive [of "''cos''" "''COS''" "[]" ?st] show ?thesis
    by blast
qed

end
